theory Spec2Isabelle
  imports Main "HOL-Library.Sublist" "HOL-Library.Multiset"
begin

section \<open>The directory scaffolder of setup\_structure.py\<close>

text \<open>
  The script joins a base directory with each entry of a static list, calls
  \<^verbatim>\<open>os.makedirs(path, exist_ok=True)\<close> on the result and prints a confirmation line; a
  summary line follows the loop. Its behaviour is that of the three library calls it makes,
  so the development starts with a model of them: \<^verbatim>\<open>posixpath.join\<close> and
  \<^verbatim>\<open>posixpath.split\<close> on strings, the path lookup of a POSIX kernel on a tree of
  directories and regular files, and the recursion of CPython's \<^verbatim>\<open>os.makedirs\<close>.

  The filesystem model has directories and regular files only: no symbolic links, no
  permissions, no limits on name length or on space. Paths are POSIX paths (separator
  \<^verbatim>\<open>/\<close>), as in the scenarios of the specification.
\<close>

subsection \<open>Characters and exceptions\<close>

definition sep :: char where
  "sep = CHR ''/''"

definition newline :: char where
  "newline = CHR 0x0A"

definition nul :: char where
  "nul = CHR 0x00"

definition curdir :: string where
  "curdir = ''.''"

definition pardir :: string where
  "pardir = ''..''"

text \<open>
  The exceptions the three calls can raise in the model. The first three are subclasses of
  \<^verbatim>\<open>OSError\<close>; \<^verbatim>\<open>ValueError\<close> (embedded null character) is not.
\<close>

datatype error = FileExistsError | FileNotFoundError | NotADirectoryError | ValueError

definition is_OSError :: "error \<Rightarrow> bool" where
  "is_OSError e = (e \<noteq> ValueError)"

subsection \<open>posixpath\<close>

text \<open>
  \<^verbatim>\<open>
  def join(a, *p):
      path = a
      for b in p:
          if b.startswith(sep) or not path:
              path = b
          elif path.endswith(sep):
              path += b
          else:
              path += sep + b
      return path
  \<close>
  at one argument \<open>b\<close>.
\<close>

definition os_path_join :: "string \<Rightarrow> string \<Rightarrow> string" where
  "os_path_join a b =
     (if take 1 b = [sep] \<or> a = [] then b
      else if last a = sep then a @ b
      else a @ sep # b)"

definition rstrip_sep :: "string \<Rightarrow> string" where
  "rstrip_sep s = rev (dropWhile (\<lambda>c. c = sep) (rev s))"

text \<open>
  \<^verbatim>\<open>
  def split(p):
      i = p.rfind(sep) + 1
      head, tail = p[:i], p[i:]
      if head and head != sep*len(head):
          head = head.rstrip(sep)
      return head, tail
  \<close>
\<close>

definition os_path_split :: "string \<Rightarrow> string \<times> string" where
  "os_path_split p =
     (let head = rev (dropWhile (\<lambda>c. c \<noteq> sep) (rev p));
          tail = rev (takeWhile (\<lambda>c. c \<noteq> sep) (rev p))
      in (if head \<noteq> [] \<and> head \<noteq> replicate (length head) sep then rstrip_sep head else head,
          tail))"

subsection \<open>The filesystem\<close>

datatype kind = Dir | File

text \<open>
  A node is a directory or a regular file. There are no symbolic links: every statement
  below that speaks of what exists is a statement about filesystems without them. (With
  links, \<^verbatim>\<open>os.path.exists\<close> follows a link and \<^verbatim>\<open>os.mkdir\<close> does not, so a dangling link is
  a name that does not exist and cannot be created.)

  A node is named by the list of its components from the root; the root itself is \<open>[]\<close> and
  is always a directory. \<open>cwd\<close> is the working directory of the process, where relative
  paths start.
\<close>

record filesystem =
  nodes :: "(string list \<times> kind) list"
  cwd :: "string list"

definition kind_at :: "filesystem \<Rightarrow> string list \<Rightarrow> kind option" where
  "kind_at fs q = (if q = [] then Some Dir else map_of (nodes fs) q)"

text \<open>
  A filesystem is a tree: no node is listed twice, the parent of every node is a directory,
  and the working directory is a directory.
\<close>

definition wf_fs :: "filesystem \<Rightarrow> bool" where
  "wf_fs fs =
     (distinct (map fst (nodes fs)) \<and>
      list_all (\<lambda>(q, k). q \<noteq> [] \<and> kind_at fs (butlast q) = Some Dir) (nodes fs) \<and>
      kind_at fs (cwd fs) = Some Dir)"

text \<open>\<^verbatim>\<open>p.split('/')\<close>: the pieces of a string between separators.\<close>

fun split_sep :: "string \<Rightarrow> string list" where
  "split_sep [] = [[]]"
| "split_sep (c # cs) =
     (if c = sep then [] # split_sep cs
      else case split_sep cs of [] \<Rightarrow> [[c]] | x # xs \<Rightarrow> (c # x) # xs)"

text \<open>The components the kernel sees: runs of separators count as one.\<close>

definition comps :: "string \<Rightarrow> string list" where
  "comps p = filter (\<lambda>c. c \<noteq> []) (split_sep p)"

definition start :: "filesystem \<Rightarrow> string \<Rightarrow> string list" where
  "start fs p = (if take 1 p = [sep] then [] else cwd fs)"

definition step :: "string list \<Rightarrow> string \<Rightarrow> string list" where
  "step cur c =
     (if c = curdir then cur else if c = pardir then butlast cur else cur @ [c])"

text \<open>
  Path lookup: every component is looked up in a node that must be a directory.
\<close>

fun walk :: "filesystem \<Rightarrow> string list \<Rightarrow> string list \<Rightarrow> error + string list" where
  "walk fs cur [] = Inr cur"
| "walk fs cur (c # cs) =
     (case kind_at fs cur of
        None \<Rightarrow> Inl FileNotFoundError
      | Some File \<Rightarrow> Inl NotADirectoryError
      | Some Dir \<Rightarrow> walk fs (step cur c) cs)"

text \<open>\<^verbatim>\<open>os.stat\<close>, as far as the kind of the node goes. A trailing separator demands a directory.\<close>

definition os_stat :: "filesystem \<Rightarrow> string \<Rightarrow> error + kind" where
  "os_stat fs p =
     (if nul \<in> set p then Inl ValueError
      else if p = [] then Inl FileNotFoundError
      else case walk fs (start fs p) (comps p) of
             Inl e \<Rightarrow> Inl e
           | Inr q \<Rightarrow>
               (case kind_at fs q of
                  None \<Rightarrow> Inl FileNotFoundError
                | Some Dir \<Rightarrow> Inr Dir
                | Some File \<Rightarrow> if last p = sep then Inl NotADirectoryError else Inr File))"

text \<open>\<^verbatim>\<open>os.path.exists\<close> and \<^verbatim>\<open>os.path.isdir\<close> turn every failure of \<^verbatim>\<open>os.stat\<close> into False.\<close>

definition os_path_exists :: "filesystem \<Rightarrow> string \<Rightarrow> bool" where
  "os_path_exists fs p = (case os_stat fs p of Inl e \<Rightarrow> False | Inr k \<Rightarrow> True)"

definition os_path_isdir :: "filesystem \<Rightarrow> string \<Rightarrow> bool" where
  "os_path_isdir fs p = (os_stat fs p = Inr Dir)"

text \<open>
  \<^verbatim>\<open>os.mkdir\<close>: the parent must resolve to a directory, and the last component must be a
  name that is not there yet.
\<close>

definition os_mkdir :: "string \<Rightarrow> filesystem \<Rightarrow> error + filesystem" where
  "os_mkdir p fs =
     (if nul \<in> set p then Inl ValueError
      else if p = [] then Inl FileNotFoundError
      else if comps p = [] then Inl FileExistsError
      else case walk fs (start fs p) (butlast (comps p)) of
             Inl e \<Rightarrow> Inl e
           | Inr par \<Rightarrow>
               (case kind_at fs par of
                  None \<Rightarrow> Inl FileNotFoundError
                | Some File \<Rightarrow> Inl NotADirectoryError
                | Some Dir \<Rightarrow>
                    if last (comps p) = curdir \<or> last (comps p) = pardir
                       \<or> kind_at fs (par @ [last (comps p)]) \<noteq> None
                    then Inl FileExistsError
                    else Inr (fs\<lparr>nodes := (par @ [last (comps p)], Dir) # nodes fs\<rparr>)))"

subsection \<open>os.makedirs\<close>

text \<open>
  \<^verbatim>\<open>
  def makedirs(name, mode=0o777, exist_ok=False):
      head, tail = path.split(name)
      if not tail:
          head, tail = path.split(head)
      if head and tail and not path.exists(head):
          try:
              makedirs(head, exist_ok=exist_ok)
          except FileExistsError:
              pass
          cdir = curdir
          if tail == cdir:
              return
      try:
          mkdir(name, mode)
      except OSError:
          if not exist_ok or not path.isdir(name):
              raise
  \<close>
  A call returns the outcome (\<open>Inl\<close> the exception raised) and the filesystem it leaves,
  which a failed call may have changed.
\<close>

definition head_tail :: "string \<Rightarrow> string \<times> string" where
  "head_tail name =
     (let (head, tail) = os_path_split name
      in if tail = [] then os_path_split head else (head, tail))"

definition try_mkdir :: "string \<Rightarrow> bool \<Rightarrow> filesystem \<Rightarrow> (error + unit) \<times> filesystem" where
  "try_mkdir name exist_ok fs =
     (case os_mkdir name fs of
        Inr fs' \<Rightarrow> (Inr (), fs')
      | Inl e \<Rightarrow>
          if is_OSError e \<and> \<not> (\<not> exist_ok \<or> \<not> os_path_isdir fs name) then (Inr (), fs)
          else (Inl e, fs))"

function os_makedirs :: "string \<Rightarrow> bool \<Rightarrow> filesystem \<Rightarrow> (error + unit) \<times> filesystem" where
  "os_makedirs name exist_ok fs =
     (let head = fst (head_tail name); tail = snd (head_tail name)
      in if head \<noteq> [] \<and> tail \<noteq> [] \<and> \<not> os_path_exists fs head then
           (case os_makedirs head exist_ok fs of
              (Inl e, fs1) \<Rightarrow>
                if e = FileExistsError then
                  (if tail = curdir then (Inr (), fs1) else try_mkdir name exist_ok fs1)
                else (Inl e, fs1)
            | (Inr u, fs1) \<Rightarrow>
                if tail = curdir then (Inr (), fs1) else try_mkdir name exist_ok fs1)
         else try_mkdir name exist_ok fs)"
  by pat_completeness auto
termination
proof -
  have strip: "length (rstrip_sep s) \<le> length s" for s
    by (simp add: rstrip_sep_def) (metis length_dropWhile_le length_rev)
  have head_le: "length (fst (os_path_split p)) \<le> length p" for p
  proof -
    have "length (rev (dropWhile (\<lambda>c. c \<noteq> sep) (rev p))) \<le> length p"
      by (metis length_dropWhile_le length_rev)
    then show ?thesis
      using strip [of "rev (dropWhile (\<lambda>c. c \<noteq> sep) (rev p))"]
      by (simp add: os_path_split_def Let_def)
  qed
  have head_less: "length (fst (os_path_split p)) < length p" if "snd (os_path_split p) \<noteq> []" for p
  proof -
    let ?h = "rev (dropWhile (\<lambda>c. c \<noteq> sep) (rev p))"
    from that have "takeWhile (\<lambda>c. c \<noteq> sep) (rev p) \<noteq> []"
      by (simp add: os_path_split_def Let_def)
    then have "1 \<le> length (takeWhile (\<lambda>c. c \<noteq> sep) (rev p))"
      by (cases "takeWhile (\<lambda>c. c \<noteq> sep) (rev p)") simp_all
    moreover have "length (takeWhile (\<lambda>c. c \<noteq> sep) (rev p))
        + length (dropWhile (\<lambda>c. c \<noteq> sep) (rev p)) = length p"
      by (metis length_append length_rev takeWhile_dropWhile_id)
    ultimately have "length ?h < length p" by simp
    then show ?thesis
      using strip [of ?h] by (simp add: os_path_split_def Let_def)
  qed
  have shorter: "length (fst (head_tail name)) < length name" if "snd (head_tail name) \<noteq> []" for name
  proof (cases "snd (os_path_split name) = []")
    case True
    then have "head_tail name = os_path_split (fst (os_path_split name))"
      by (simp add: head_tail_def case_prod_beta)
    with that have "length (fst (head_tail name)) < length (fst (os_path_split name))"
      using head_less by simp
    then show ?thesis using head_le [of name] by simp
  next
    case False
    then have "head_tail name = os_path_split name"
      by (simp add: head_tail_def case_prod_beta prod_eq_iff)
    with False show ?thesis using head_less by simp
  qed
  show ?thesis
    by (relation "measure (\<lambda>(name, exist_ok, fs). length name)") (auto simp: shorter)
qed

text \<open>The equation of \<open>os_makedirs\<close> is unfolded by hand, one call at a time.\<close>

declare os_makedirs.simps [simp del]

subsection \<open>The script\<close>

record world =
  disk :: filesystem
  stdout :: string

definition print :: "string \<Rightarrow> world \<Rightarrow> world" where
  "print s w = w\<lparr>stdout := stdout w @ s @ [newline]\<rparr>"

definition base_dir :: string where
  "base_dir = ''d:'' @ [CHR 0x5C] @ ''flutter_projects'' @ [CHR 0x5C]
     @ ''flutter_bloc_tutorial'' @ [CHR 0x5C] @ ''lib''"

definition directories :: "string list" where
  "directories =
     [''core/error'',
      ''core/usecases'',
      ''features/user/domain/entities'',
      ''features/user/domain/repositories'',
      ''features/user/domain/usecases'',
      ''features/user/data/datasources'',
      ''features/user/data/models'',
      ''features/user/data/repositories'',
      ''features/user/presentation/bloc'',
      ''features/user/presentation/screens'',
      ''features/user/presentation/widgets'',
      ''features/post/domain/entities'',
      ''features/post/domain/repositories'',
      ''features/post/domain/usecases'',
      ''features/post/data/datasources'',
      ''features/post/data/models'',
      ''features/post/data/repositories'',
      ''features/post/presentation/cubit'',
      ''features/post/presentation/screens'',
      ''features/post/presentation/widgets'',
      ''features/product/domain/entities'',
      ''features/product/domain/repositories'',
      ''features/product/domain/usecases'',
      ''features/product/data/datasources'',
      ''features/product/data/models'',
      ''features/product/data/repositories'',
      ''features/product/presentation/bloc'',
      ''features/product/presentation/screens'',
      ''features/product/presentation/widgets'']"

text \<open>
  \<^verbatim>\<open>
  for directory in directories:
      path = os.path.join(base_dir, directory)
      os.makedirs(path, exist_ok=True)
      print(f'Created: {path}')
  \<close>
  An exception ends the run where it is raised.
\<close>

fun create_all :: "string \<Rightarrow> string list \<Rightarrow> world \<Rightarrow> (error + unit) \<times> world" where
  "create_all base [] w = (Inr (), w)"
| "create_all base (directory # rest) w =
     (let path = os_path_join base directory
      in case os_makedirs path True (disk w) of
           (Inl e, fs') \<Rightarrow> (Inl e, w\<lparr>disk := fs'\<rparr>)
         | (Inr u, fs') \<Rightarrow> create_all base rest (print (''Created: '' @ path) (w\<lparr>disk := fs'\<rparr>)))"

text \<open>The loop, then \<^verbatim>\<open>print('\nDirectory structure created successfully!')\<close>.\<close>

definition script :: "string \<Rightarrow> string list \<Rightarrow> world \<Rightarrow> (error + unit) \<times> world" where
  "script base dirs w =
     (case create_all base dirs w of
        (Inl e, w') \<Rightarrow> (Inl e, w')
      | (Inr u, w') \<Rightarrow>
          (Inr (), print (newline # ''Directory structure created successfully!'') w'))"

definition main :: "world \<Rightarrow> (error + unit) \<times> world" where
  "main w = script base_dir directories w"

subsection \<open>The console output, as the specification words it\<close>

text \<open>
  The specification describes the output line by line: a line \<^verbatim>\<open>Created: <fullPath>\<close> for
  each directory, a blank line, and the summary line. \<open>unlines\<close> ends every line with a
  newline, as \<^verbatim>\<open>print\<close> does; \<open>lines_of\<close> is its inverse on text whose lines contain none.
\<close>

definition created_line :: "string \<Rightarrow> string \<Rightarrow> string" where
  "created_line base d = ''Created: '' @ os_path_join base d"

definition summary_line :: string where
  "summary_line = ''Directory structure created successfully!''"

definition unlines :: "string list \<Rightarrow> string" where
  "unlines ls = concat (map (\<lambda>l. l @ [newline]) ls)"

definition expected_output :: "string \<Rightarrow> string list \<Rightarrow> string" where
  "expected_output base dirs = unlines (map (created_line base) dirs @ [[], summary_line])"

fun lines_of :: "string \<Rightarrow> string list" where
  "lines_of [] = []"
| "lines_of (c # cs) =
     (if c = newline then [] # lines_of cs
      else case lines_of cs of [] \<Rightarrow> [[c]] | l # ls \<Rightarrow> (c # l) # ls)"

subsection \<open>The directory tree, as the specification words it\<close>

text \<open>
  Two core folders, and for each of the features user, post and product the three domain
  folders, the three data folders and the three presentation folders, where the state
  folder of the presentation layer is \<^verbatim>\<open>cubit\<close> for post and \<^verbatim>\<open>bloc\<close> otherwise.
\<close>

definition layer_dirs :: "string \<Rightarrow> string list" where
  "layer_dirs state_dir =
     [''domain/entities'', ''domain/repositories'', ''domain/usecases'',
      ''data/datasources'', ''data/models'', ''data/repositories'',
      ''presentation/'' @ state_dir, ''presentation/screens'', ''presentation/widgets'']"

definition feature_dirs :: "string \<Rightarrow> string list" where
  "feature_dirs feature =
     map (\<lambda>d. ''features/'' @ feature @ ''/'' @ d)
       (layer_dirs (if feature = ''post'' then ''cubit'' else ''bloc''))"

definition spec_tree :: "string list" where
  "spec_tree = [''core/error'', ''core/usecases'']
     @ concat (map feature_dirs [''user'', ''post'', ''product''])"

subsection \<open>Notions used in the statements and proofs\<close>

text \<open>
  The specification expects no \<^verbatim>\<open>..\<close> traversal in a path. Without it, the node a path
  names is found from the text of the path alone: \<open>target\<close>.
\<close>

definition no_pardir :: "string \<Rightarrow> bool" where
  "no_pardir p = (pardir \<notin> set (comps p))"

definition target :: "filesystem \<Rightarrow> string \<Rightarrow> string list" where
  "target fs p = foldl step (start fs p) (comps p)"

text \<open>One filesystem extends another when it keeps every node of it, with its kind.\<close>

definition extends :: "filesystem \<Rightarrow> filesystem \<Rightarrow> bool" where
  "extends fs fs' = (cwd fs' = cwd fs \<and> (\<forall>q k. kind_at fs q = Some k \<longrightarrow> kind_at fs' q = Some k))"

text \<open>
  A path can be made a directory when it is a proper path and no node on the way to its
  target is a regular file; the directories that are then created are the nodes on the way
  that are not there yet.
\<close>

definition feasible :: "filesystem \<Rightarrow> string \<Rightarrow> bool" where
  "feasible fs p =
     (p \<noteq> [] \<and> nul \<notin> set p \<and> list_all (\<lambda>q. kind_at fs q \<noteq> Some File) (prefixes (target fs p)))"

definition new_dirs :: "filesystem \<Rightarrow> string list \<Rightarrow> (string list \<times> kind) list" where
  "new_dirs fs t = map (\<lambda>q. (q, Dir)) (filter (\<lambda>q. kind_at fs q = None) (prefixes t))"

definition all_new_dirs :: "filesystem \<Rightarrow> string \<Rightarrow> string list \<Rightarrow> (string list \<times> kind) set" where
  "all_new_dirs fs base dirs = (\<Union>d\<in>set dirs. set (new_dirs fs (target fs (os_path_join base d))))"

subsection \<open>Scenarios\<close>

text \<open>
  The scenario of the specification: base directory \<^verbatim>\<open>/tmp/proj/lib\<close> and two entries, run
  on a filesystem that holds the root only. \<open>conflict_world\<close> has a directory \<^verbatim>\<open>/b\<close> with a
  regular file \<^verbatim>\<open>f\<close> in it.
\<close>

definition empty_disk :: filesystem where
  "empty_disk = \<lparr>nodes = [], cwd = []\<rparr>"

definition fresh_world :: world where
  "fresh_world = \<lparr>disk = empty_disk, stdout = []\<rparr>"

definition scenario_base :: string where
  "scenario_base = ''/tmp/proj/lib''"

definition scenario_dirs :: "string list" where
  "scenario_dirs = [''core/error'', ''features/user/domain/entities'']"

definition scenario_result :: world where
  "scenario_result = snd (script scenario_base scenario_dirs fresh_world)"

definition populated_world :: world where
  "populated_world = scenario_result\<lparr>stdout := []\<rparr>"

definition conflict_world :: world where
  "conflict_world =
     \<lparr>disk = \<lparr>nodes = [([''b'', ''f''], File), ([''b''], Dir)], cwd = []\<rparr>, stdout = []\<rparr>"

definition conflict_after_g :: world where
  "conflict_after_g = snd (create_all ''/b'' [''g''] conflict_world)"

section \<open>Properties of the library model\<close>

subsection \<open>Components of a path\<close>

lemma split_sep_not_Nil [simp]: "split_sep p \<noteq> []"
  by (induction p) (auto split: list.splits)

lemma split_sep_append: "split_sep (a @ sep # b) = split_sep a @ split_sep b"
  by (induction a) (auto split: list.splits)

lemma split_sep_nosep: "sep \<notin> set t \<Longrightarrow> split_sep t = [t]"
  by (induction t) auto

lemma comps_Nil [simp]: "comps [] = []"
  by (simp add: comps_def)

lemma comps_append: "comps (a @ sep # b) = comps a @ comps b"
  by (simp add: comps_def split_sep_append)

lemma comps_nosep: "sep \<notin> set t \<Longrightarrow> comps t = (if t = [] then [] else [t])"
  by (simp add: comps_def split_sep_nosep)

lemma comps_snoc_sep [simp]: "comps (a @ [sep]) = comps a"
  using comps_append [of a "[]"] by simp

lemma comps_rstrip [simp]: "comps (rstrip_sep s) = comps s"
proof (induction s rule: rev_induct)
  case Nil
  then show ?case by (simp add: rstrip_sep_def)
next
  case (snoc c s)
  then show ?case by (cases "c = sep") (simp_all add: rstrip_sep_def)
qed

lemma split_sep_no_sep: "c \<in> set (split_sep p) \<Longrightarrow> sep \<notin> set c"
  by (induction p arbitrary: c) (auto split: if_splits list.splits)

lemma comps_no_sep: "c \<in> set (comps p) \<Longrightarrow> sep \<notin> set c"
  by (auto simp: comps_def dest: split_sep_no_sep)

lemma split_parts: "rev (dropWhile (\<lambda>c. c \<noteq> sep) (rev p)) @ rev (takeWhile (\<lambda>c. c \<noteq> sep) (rev p)) = p"
  by (metis rev_append rev_rev_ident takeWhile_dropWhile_id)

lemma split_tail_nosep: "sep \<notin> set (snd (os_path_split p))"
  by (auto simp: os_path_split_def Let_def dest: set_takeWhileD)

lemma split_head0: 
  "rev (dropWhile (\<lambda>c. c \<noteq> sep) (rev p)) = [] \<or> (\<exists>h. rev (dropWhile (\<lambda>c. c \<noteq> sep) (rev p)) = h @ [sep])"
proof (cases "dropWhile (\<lambda>c. c \<noteq> sep) (rev p)")
  case Nil then show ?thesis by simp
next
  case (Cons x xs)
  then have "x = sep" using hd_dropWhile [of "\<lambda>c. c \<noteq> sep" "rev p"] by auto
  with Cons show ?thesis by simp
qed

lemma comps_glue: "h = [] \<or> (\<exists>h'. h = h' @ [sep]) \<Longrightarrow> comps (h @ t) = comps h @ comps t"
  by (auto simp: comps_append)

lemma comps_split: "comps p = comps (fst (os_path_split p)) @ comps (snd (os_path_split p))"
proof -
  let ?h = "rev (dropWhile (\<lambda>c. c \<noteq> sep) (rev p))"
  let ?t = "rev (takeWhile (\<lambda>c. c \<noteq> sep) (rev p))"
  have p: "p = ?h @ ?t" by (simp add: split_parts)
  have "comps (?h @ ?t) = comps ?h @ comps ?t"
    by (rule comps_glue) (rule split_head0)
  with p have "comps p = comps ?h @ comps ?t" by simp
  then show ?thesis by (simp add: os_path_split_def Let_def)
qed

lemma comps_replicate_sep [simp]: "comps (replicate n sep) = []"
  by (induction n) (simp_all add: comps_def)

lemma split_tail_empty: "snd (os_path_split p) = [] \<longleftrightarrow> p = [] \<or> last p = sep"
  by (cases p rule: rev_cases) (auto simp: os_path_split_def Let_def)

lemma rstrip_sep_last: "rstrip_sep s = [] \<or> last (rstrip_sep s) \<noteq> sep"
proof (cases "dropWhile (\<lambda>c. c = sep) (rev s)")
  case Nil
  then show ?thesis by (simp add: rstrip_sep_def)
next
  case (Cons x xs)
  then have "x \<noteq> sep" using hd_dropWhile [of "\<lambda>c. c = sep" "rev s"] by auto
  with Cons show ?thesis by (simp add: rstrip_sep_def)
qed

lemma rstrip_sep_prefix: "\<exists>r. s = rstrip_sep s @ r"
proof -
  have "rev s = takeWhile (\<lambda>c. c = sep) (rev s) @ dropWhile (\<lambda>c. c = sep) (rev s)" by simp
  then have "s = rev (dropWhile (\<lambda>c. c = sep) (rev s)) @ rev (takeWhile (\<lambda>c. c = sep) (rev s))"
    by (metis rev_append rev_rev_ident)
  then show ?thesis unfolding rstrip_sep_def by blast
qed

lemma split_head_stripped:
  "fst (os_path_split p) = [] \<or> last (fst (os_path_split p)) \<noteq> sep \<or> comps (fst (os_path_split p)) = []"
proof -
  let ?h = "rev (dropWhile (\<lambda>c. c \<noteq> sep) (rev p))"
  show ?thesis
  proof (cases "?h \<noteq> [] \<and> ?h \<noteq> replicate (length ?h) sep")
    case True
    then have "fst (os_path_split p) = rstrip_sep ?h" by (simp add: os_path_split_def Let_def)
    then show ?thesis using rstrip_sep_last [of ?h] by auto
  next
    case False
    then have "fst (os_path_split p) = ?h" and "?h = [] \<or> ?h = replicate (length ?h) sep"
      by (auto simp: os_path_split_def Let_def)
    then show ?thesis by (metis comps_replicate_sep)
  qed
qed

lemma split_head_prefix: "\<exists>r. p = fst (os_path_split p) @ r"
proof -
  let ?h = "rev (dropWhile (\<lambda>c. c \<noteq> sep) (rev p))"
  obtain r1 where r1: "p = ?h @ r1" using split_parts [of p] by metis
  obtain r2 where r2: "?h = rstrip_sep ?h @ r2" using rstrip_sep_prefix by blast
  have "p = rstrip_sep ?h @ (r2 @ r1)" using r1 r2 by (metis append.assoc)
  with r1 show ?thesis by (auto simp: os_path_split_def Let_def)
qed

subsection \<open>Head and tail of a path\<close>

lemma ht_cases:
  "head_tail name = os_path_split name \<and> snd (os_path_split name) \<noteq> []
   \<or> head_tail name = os_path_split (fst (os_path_split name)) \<and> snd (os_path_split name) = []"
  by (auto simp: head_tail_def case_prod_beta prod_eq_iff)

lemma ht_comps: "comps name = comps (fst (head_tail name)) @ comps (snd (head_tail name))"
  using ht_cases [of name] comps_split [of name] comps_split [of "fst (os_path_split name)"]
  by auto

lemma ht_tail_nosep: "sep \<notin> set (snd (head_tail name))"
  using ht_cases [of name] split_tail_nosep by metis

lemma ht_comps_tail:
  "snd (head_tail name) \<noteq> [] \<Longrightarrow> comps name = comps (fst (head_tail name)) @ [snd (head_tail name)]"
  using ht_comps [of name] ht_tail_nosep [of name] by (simp add: comps_nosep)

lemma ht_tail_empty:
  assumes "snd (head_tail name) = []"
  shows "comps name = []"
proof -
  let ?h = "fst (os_path_split name)"
  from assms ht_cases [of name]
  have a: "snd (os_path_split name) = []" and b: "snd (os_path_split ?h) = []" by auto
  from b have "?h = [] \<or> last ?h = sep" by (simp add: split_tail_empty)
  with split_head_stripped [of name] have "comps ?h = []" by auto
  with a comps_split [of name] show ?thesis by (simp add: comps_nosep)
qed

lemma ht_head_prefix: "\<exists>r. name = fst (head_tail name) @ r"
proof -
  obtain r1 where r1: "name = fst (os_path_split name) @ r1" using split_head_prefix by blast
  obtain r2 where r2: "fst (os_path_split name) = fst (os_path_split (fst (os_path_split name))) @ r2"
    using split_head_prefix by blast
  from r1 r2 have "name = fst (os_path_split (fst (os_path_split name))) @ (r2 @ r1)"
    by (metis append.assoc)
  with r1 ht_cases [of name] show ?thesis by metis
qed

lemma ht_head_stripped:
  "fst (head_tail name) = [] \<or> last (fst (head_tail name)) \<noteq> sep \<or> comps (fst (head_tail name)) = []"
  using ht_cases [of name] split_head_stripped by metis

lemma ht_head_start: "fst (head_tail name) \<noteq> [] \<Longrightarrow> start fs (fst (head_tail name)) = start fs name"
proof -
  assume ne: "fst (head_tail name) \<noteq> []"
  obtain r where "name = fst (head_tail name) @ r" using ht_head_prefix by blast
  then have "take 1 name = take 1 (fst (head_tail name) @ r)" by simp
  also have "\<dots> = take 1 (fst (head_tail name))" using ne by (cases "fst (head_tail name)") simp_all
  finally show ?thesis by (simp add: start_def)
qed

lemma ht_head_set: "set (fst (head_tail name)) \<subseteq> set name"
proof -
  obtain r where "name = fst (head_tail name) @ r" using ht_head_prefix by blast
  then have "set name = set (fst (head_tail name)) \<union> set r" by (metis set_append)
  then show ?thesis by blast
qed

subsection \<open>Path lookup\<close>

lemma extends_refl [simp]: "extends fs fs"
  by (simp add: extends_def)

lemma extends_trans: "extends a b \<Longrightarrow> extends b c \<Longrightarrow> extends a c"
  by (simp add: extends_def)

lemma walk_append:
  "walk fs cur (xs @ ys) = (case walk fs cur xs of Inl e \<Rightarrow> Inl e | Inr q \<Rightarrow> walk fs q ys)"
  by (induction xs arbitrary: cur) (auto split: option.splits kind.splits)

lemma walk_result: "walk fs cur cs = Inr q \<Longrightarrow> q = foldl step cur cs"
  by (induction cs arbitrary: cur) (auto split: option.splits kind.splits)

lemma walk_extends: "extends fs fs' \<Longrightarrow> walk fs cur cs = Inr q \<Longrightarrow> walk fs' cur cs = Inr q"
proof (induction cs arbitrary: cur)
  case Nil
  then show ?case by simp
next
  case (Cons c cs)
  from Cons.prems(2) have d: "kind_at fs cur = Some Dir" and w: "walk fs (step cur c) cs = Inr q"
    by (auto split: option.splits kind.splits)
  from d Cons.prems(1) have "kind_at fs' cur = Some Dir" by (simp add: extends_def)
  with Cons.IH [OF Cons.prems(1) w] show ?case by simp
qed

lemma start_extends: "extends fs fs' \<Longrightarrow> start fs' p = start fs p"
  by (simp add: start_def extends_def)

lemma stat_extends: 
  assumes "extends fs fs'" "os_stat fs p = Inr k"
  shows "os_stat fs' p = Inr k"
proof -
  from assms(2) obtain q where n: "nul \<notin> set p" "p \<noteq> []"
    and w: "walk fs (start fs p) (comps p) = Inr q" 
    and k: "case kind_at fs q of None \<Rightarrow> False | Some Dir \<Rightarrow> k = Dir | Some File \<Rightarrow> last p \<noteq> sep \<and> k = File"
    by (auto simp: os_stat_def split: if_splits sum.splits option.splits kind.splits)
  from walk_extends [OF assms(1) w] have w': "walk fs' (start fs' p) (comps p) = Inr q"
    by (simp add: start_extends [OF assms(1)])
  from k obtain k' where k': "kind_at fs q = Some k'" by (auto split: option.splits)
  with assms(1) have "kind_at fs' q = Some k'" by (simp add: extends_def)
  with k k' n w' show ?thesis by (auto simp: os_stat_def split: kind.splits)
qed

lemma isdir_extends: "extends fs fs' \<Longrightarrow> os_path_isdir fs p \<Longrightarrow> os_path_isdir fs' p"
  by (simp add: os_path_isdir_def stat_extends)

lemma foldl_step_no_pardir:
  "pardir \<notin> set cs \<Longrightarrow> foldl step cur cs = cur @ filter (\<lambda>c. c \<noteq> curdir) cs"
  by (induction cs arbitrary: cur) (auto simp: step_def)

lemma wf_parent:
  assumes "wf_fs fs" "kind_at fs (q @ [c]) \<noteq> None"
  shows "kind_at fs q = Some Dir"
proof -
  from assms(2) obtain k where "map_of (nodes fs) (q @ [c]) = Some k" by (auto simp: kind_at_def)
  then have "(q @ [c], k) \<in> set (nodes fs)" by (rule map_of_SomeD)
  with assms(1) have "kind_at fs (butlast (q @ [c])) = Some Dir"
    by (auto simp: wf_fs_def list_all_iff)
  then show ?thesis by simp
qed

lemma wf_prefix:
  "wf_fs fs \<Longrightarrow> kind_at fs (q @ r) \<noteq> None \<Longrightarrow> r \<noteq> [] \<Longrightarrow> kind_at fs q = Some Dir"
proof (induction r rule: rev_induct)
  case Nil
  then show ?case by simp
next
  case (snoc c r)
  from snoc.prems have p: "kind_at fs (q @ r) = Some Dir"
    using wf_parent [of fs "q @ r" c] by simp
  show ?case
  proof (cases "r = []")
    case True with p show ?thesis by simp
  next
    case False with p snoc show ?thesis by simp
  qed
qed

lemma wf_walk:
  assumes "wf_fs fs" "pardir \<notin> set cs"
    and "kind_at fs (foldl step cur cs) = Some Dir"
  shows "walk fs cur cs = Inr (foldl step cur cs)"
  using assms(2,3)
proof (induction cs arbitrary: cur)
  case Nil
  then show ?case by simp
next
  case (Cons c cs)
  then have np: "pardir \<notin> set cs" "c \<noteq> pardir" by auto
  have fin: "foldl step cur (c # cs) = cur @ filter (\<lambda>c. c \<noteq> curdir) (c # cs)"
    using Cons.prems(1) by (rule foldl_step_no_pardir)
  have "kind_at fs cur = Some Dir"
  proof (cases "filter (\<lambda>c. c \<noteq> curdir) (c # cs) = []")
    case True
    with fin Cons.prems(2) show ?thesis by simp
  next
    case False
    from Cons.prems(2) fin have "kind_at fs (cur @ filter (\<lambda>c. c \<noteq> curdir) (c # cs)) \<noteq> None" by simp
    from wf_prefix [OF assms(1) this False] show ?thesis .
  qed
  moreover have "walk fs (step cur c) cs = Inr (foldl step (step cur c) cs)"
    using Cons.IH [OF np(1)] Cons.prems(2) by simp
  ultimately show ?case by simp
qed

lemma kind_at_root [simp]: "kind_at fs [] = Some Dir"
  by (simp add: kind_at_def)

lemma wf_start: "wf_fs fs \<Longrightarrow> kind_at fs (start fs p) = Some Dir"
  by (simp add: wf_fs_def start_def)


lemma wf_isdir:
  assumes "wf_fs fs" "no_pardir p" "p \<noteq> []" "nul \<notin> set p" "kind_at fs (target fs p) = Some Dir"
  shows "os_path_isdir fs p"
proof -
  have "walk fs (start fs p) (comps p) = Inr (target fs p)"
    unfolding target_def using assms(1,2,5) by (intro wf_walk) (simp_all add: no_pardir_def target_def)
  with assms(3,4,5) show ?thesis by (simp add: os_path_isdir_def os_stat_def)
qed

subsection \<open>Creating one directory\<close>

lemma try_mkdir_fail_same: "try_mkdir name b fs = (Inl e, fs') \<Longrightarrow> fs' = fs"
  by (auto simp: try_mkdir_def split: sum.splits if_splits)

lemma mkdir_nodes:
  assumes "os_mkdir p fs = Inr fs'"
  shows "\<exists>q. q \<noteq> [] \<and> kind_at fs q = None \<and> kind_at fs (butlast q) = Some Dir
           \<and> fs' = fs\<lparr>nodes := (q, Dir) # nodes fs\<rparr>"
proof -
  from assms obtain par where "kind_at fs par = Some Dir"
    "kind_at fs (par @ [last (comps p)]) = None"
    "fs' = fs\<lparr>nodes := (par @ [last (comps p)], Dir) # nodes fs\<rparr>"
    by (auto simp: os_mkdir_def split: if_splits sum.splits option.splits kind.splits)
  then show ?thesis by (intro exI [of _ "par @ [last (comps p)]"]) simp
qed

lemma kind_at_cons:
  "q \<noteq> [] \<Longrightarrow> kind_at (fs\<lparr>nodes := (q, k) # nodes fs\<rparr>) x = (if x = q then Some k else kind_at fs x)"
  by (auto simp: kind_at_def)

lemma extends_cons:
  "q \<noteq> [] \<Longrightarrow> kind_at fs q = None \<Longrightarrow> extends fs (fs\<lparr>nodes := (q, k) # nodes fs\<rparr>)"
  by (auto simp: extends_def kind_at_cons)

lemma wf_cons:
  assumes "wf_fs fs" "q \<noteq> []" "kind_at fs q = None" "kind_at fs (butlast q) = Some Dir"
  shows "wf_fs (fs\<lparr>nodes := (q, Dir) # nodes fs\<rparr>)"
proof -
  let ?fs' = "fs\<lparr>nodes := (q, Dir) # nodes fs\<rparr>"
  have ext: "extends fs ?fs'" using assms(2,3) by (rule extends_cons)
  from assms(2,3) have "q \<notin> fst ` set (nodes fs)"
    by (simp add: kind_at_def map_of_eq_None_iff)
  with assms(1) have d: "distinct (map fst (nodes ?fs'))" by (simp add: wf_fs_def)
  have "list_all (\<lambda>(x, k). x \<noteq> [] \<and> kind_at ?fs' (butlast x) = Some Dir) (nodes fs)"
    using assms(1) ext by (auto simp: wf_fs_def list_all_iff extends_def)
  moreover have "kind_at ?fs' (butlast q) = Some Dir"
    using assms(4) ext by (simp add: extends_def)
  moreover have "kind_at ?fs' (cwd ?fs') = Some Dir"
    using assms(1) ext by (simp add: wf_fs_def extends_def)
  ultimately show ?thesis using d assms(2) by (simp add: wf_fs_def)
qed

lemma mkdir_extends: "os_mkdir p fs = Inr fs' \<Longrightarrow> extends fs fs'"
  using mkdir_nodes [of p fs fs'] by (auto intro: extends_cons)

lemma mkdir_wf: "wf_fs fs \<Longrightarrow> os_mkdir p fs = Inr fs' \<Longrightarrow> wf_fs fs'"
  using mkdir_nodes [of p fs fs'] by (auto intro: wf_cons)

lemma try_mkdir_extends: "try_mkdir name b fs = (r, fs') \<Longrightarrow> extends fs fs'"
  by (auto simp: try_mkdir_def split: sum.splits if_splits intro: mkdir_extends)

lemma try_mkdir_wf: "wf_fs fs \<Longrightarrow> try_mkdir name b fs = (r, fs') \<Longrightarrow> wf_fs fs'"
  by (auto simp: try_mkdir_def split: sum.splits if_splits intro: mkdir_wf)

lemma makedirs_extends_wf:
  "os_makedirs name b fs = (r, fs') \<Longrightarrow> extends fs fs' \<and> (wf_fs fs \<longrightarrow> wf_fs fs')"
proof (induction name b fs arbitrary: r fs' rule: os_makedirs.induct)
  case (1 name exist_ok fs)
  let ?head = "fst (head_tail name)" and ?tail = "snd (head_tail name)"
  show ?case
  proof (cases "?head \<noteq> [] \<and> ?tail \<noteq> [] \<and> \<not> os_path_exists fs ?head")
    case True
    obtain r1 fs1 where rec: "os_makedirs ?head exist_ok fs = (r1, fs1)" by fastforce
    from "1.IH" [OF refl refl True rec] have e1: "extends fs fs1" and w1: "wf_fs fs \<longrightarrow> wf_fs fs1"
      by simp_all
    from "1.prems" True rec
    have "(r, fs') = (r1, fs1) \<or> (r, fs') = (Inr (), fs1) \<or> try_mkdir name exist_ok fs1 = (r, fs')"
      by (subst (asm) os_makedirs.simps) (auto simp: Let_def split: sum.splits if_splits)
    then show ?thesis
      using e1 w1 try_mkdir_extends [of name exist_ok fs1 r fs'] try_mkdir_wf [of fs1 name exist_ok r fs']
      by (auto intro: extends_trans)
  next
    case False
    with "1.prems" have "try_mkdir name exist_ok fs = (r, fs')"
      by (subst (asm) os_makedirs.simps) (auto simp: Let_def)
    then show ?thesis using try_mkdir_extends try_mkdir_wf by blast
  qed
qed

lemma stat_mkdir:
  assumes "os_stat fs p = Inr k"
  shows "os_mkdir p fs = Inl FileExistsError"
proof -
  from assms obtain q where n: "nul \<notin> set p" "p \<noteq> []"
    and w: "walk fs (start fs p) (comps p) = Inr q" and k: "kind_at fs q \<noteq> None"
    by (auto simp: os_stat_def split: if_splits sum.splits option.splits kind.splits)
  show ?thesis
  proof (cases "comps p = []")
    case True
    with n show ?thesis by (simp add: os_mkdir_def)
  next
    case False
    then have cs: "comps p = butlast (comps p) @ [last (comps p)]" by simp
    from w obtain par where par: "walk fs (start fs p) (butlast (comps p)) = Inr par"
      and l: "walk fs par [last (comps p)] = Inr q"
      by (subst (asm) cs, subst (asm) walk_append) (auto split: sum.splits)
    from l have d: "kind_at fs par = Some Dir" and q: "q = step par (last (comps p))"
      by (auto split: option.splits kind.splits)
    from q k have "last (comps p) = curdir \<or> last (comps p) = pardir
        \<or> kind_at fs (par @ [last (comps p)]) \<noteq> None"
      by (auto simp: step_def split: if_splits)
    with n False par d show ?thesis by (simp add: os_mkdir_def)
  qed
qed

lemma stat_head_isdir:
  assumes "os_stat fs name = Inr k" "fst (head_tail name) \<noteq> []" "snd (head_tail name) \<noteq> []"
  shows "os_path_isdir fs (fst (head_tail name))"
proof -
  let ?head = "fst (head_tail name)" and ?tail = "snd (head_tail name)"
  from assms(1) obtain q where n: "nul \<notin> set name"
    and w: "walk fs (start fs name) (comps name) = Inr q"
    by (auto simp: os_stat_def split: if_splits sum.splits)
  from w ht_comps_tail [OF assms(3)] obtain par where
    par: "walk fs (start fs name) (comps ?head) = Inr par" and l: "walk fs par [?tail] = Inr q"
    by (auto simp: walk_append split: sum.splits)
  from l have d: "kind_at fs par = Some Dir" by (auto split: option.splits kind.splits)
  from n ht_head_set [of name] have "nul \<notin> set ?head" by blast
  with par d assms(2) show ?thesis
    by (simp add: os_path_isdir_def os_stat_def ht_head_start)
qed

lemma stat_makedirs:
  assumes "os_stat fs name = Inr k"
  shows "os_makedirs name True fs = (if k = Dir then (Inr (), fs) else (Inl FileExistsError, fs))"
proof -
  have "\<not> (fst (head_tail name) \<noteq> [] \<and> snd (head_tail name) \<noteq> []
            \<and> \<not> os_path_exists fs (fst (head_tail name)))"
  proof
    assume a: "fst (head_tail name) \<noteq> [] \<and> snd (head_tail name) \<noteq> []
            \<and> \<not> os_path_exists fs (fst (head_tail name))"
    then have "os_path_isdir fs (fst (head_tail name))" using stat_head_isdir [OF assms] by blast
    with a show False by (simp add: os_path_exists_def os_path_isdir_def)
  qed
  then have "os_makedirs name True fs = try_mkdir name True fs"
    by (subst os_makedirs.simps) (auto simp: Let_def)
  then show ?thesis using assms stat_mkdir [OF assms]
    by (cases k) (simp_all add: try_mkdir_def is_OSError_def os_path_isdir_def)
qed

subsection \<open>Console output and the loop\<close>

lemma lines_of_line: "newline \<notin> set l \<Longrightarrow> lines_of (l @ newline # rest) = l # lines_of rest"
  by (induction l) auto

lemma lines_of_unlines: "\<forall>l\<in>set ls. newline \<notin> set l \<Longrightarrow> lines_of (unlines ls) = ls"
  by (induction ls) (simp_all add: unlines_def lines_of_line)

lemma unlines_append: "unlines (xs @ ys) = unlines xs @ unlines ys"
  by (simp add: unlines_def)

lemma create_all_stdout:
  "create_all base dirs w = (Inr (), w') \<Longrightarrow>
     stdout w' = stdout w @ unlines (map (created_line base) dirs)"
proof (induction dirs arbitrary: w)
  case Nil
  then show ?case by (simp add: unlines_def)
next
  case (Cons d dirs)
  obtain r fs' where m: "os_makedirs (os_path_join base d) True (disk w) = (r, fs')" by fastforce
  with Cons.prems obtain u where "r = Inr u" by (cases r) (auto simp: Let_def)
  with m Cons.prems have
    "create_all base dirs (print (''Created: '' @ os_path_join base d) (w\<lparr>disk := fs'\<rparr>)) = (Inr (), w')"
    by (simp add: Let_def)
  from Cons.IH [OF this] show ?case
    by (simp add: print_def unlines_def created_line_def)
qed

lemma script_stdout:
  assumes "script base dirs w = (Inr (), w')"
  shows "stdout w' = stdout w @ expected_output base dirs"
proof -
  obtain r w1 where c: "create_all base dirs w = (r, w1)" by fastforce
  with assms have r: "r = Inr ()" and w': "w' = print (newline # summary_line) w1"
    by (auto simp: script_def summary_line_def split: sum.splits)
  from c r have "stdout w1 = stdout w @ unlines (map (created_line base) dirs)"
    by (simp add: create_all_stdout)
  with w' show ?thesis
    by (simp add: expected_output_def unlines_def print_def)
qed

lemma create_all_append:
  "create_all base (xs @ ys) w =
     (case create_all base xs w of (Inl e, w') \<Rightarrow> (Inl e, w') | (Inr u, w') \<Rightarrow> create_all base ys w')"
  by (induction xs arbitrary: w) (auto simp: Let_def split: prod.splits sum.splits)

lemma create_all_extends:
  "create_all base dirs w = (r, w') \<Longrightarrow> extends (disk w) (disk w')"
proof (induction dirs arbitrary: w)
  case Nil
  then show ?case by simp
next
  case (Cons d dirs)
  obtain r1 fs' where m: "os_makedirs (os_path_join base d) True (disk w) = (r1, fs')" by fastforce
  then have e: "extends (disk w) fs'" using makedirs_extends_wf by blast
  show ?case
  proof (cases r1)
    case (Inl e1)
    with m Cons.prems have "w' = w\<lparr>disk := fs'\<rparr>" by (simp add: Let_def)
    with e show ?thesis by simp
  next
    case (Inr u)
    with m Cons.prems have
      "create_all base dirs (print (''Created: '' @ os_path_join base d) (w\<lparr>disk := fs'\<rparr>)) = (r, w')"
      by (simp add: Let_def)
    from Cons.IH [OF this] e show ?thesis by (auto simp: print_def intro: extends_trans)
  qed
qed

subsection \<open>The last step of os.makedirs\<close>

lemma comps_empty_seps: "comps p = [] \<Longrightarrow> set p \<subseteq> {sep}"
proof (induction p)
  case Nil
  then show ?case by simp
next
  case (Cons c p)
  show ?case
  proof (cases "c = sep")
    case True
    with Cons show ?thesis by (auto simp: comps_def)
  next
    case False
    with Cons.prems show ?thesis by (auto simp: comps_def split: list.splits)
  qed
qed

lemma rstrip_sep_set: "set s \<subseteq> set (rstrip_sep s) \<union> {sep}"
proof -
  have "rev s = takeWhile (\<lambda>c. c = sep) (rev s) @ dropWhile (\<lambda>c. c = sep) (rev s)" by simp
  then have "set (rev s) = set (takeWhile (\<lambda>c. c = sep) (rev s)) \<union> set (dropWhile (\<lambda>c. c = sep) (rev s))"
    by (metis set_append)
  moreover have "set (takeWhile (\<lambda>c. c = sep) (rev s)) \<subseteq> {sep}"
    by (auto dest: set_takeWhileD)
  ultimately show ?thesis by (auto simp: rstrip_sep_def)
qed

lemma split_set: "set p \<subseteq> set (fst (os_path_split p)) \<union> set (snd (os_path_split p)) \<union> {sep}"
proof -
  let ?h = "rev (dropWhile (\<lambda>c. c \<noteq> sep) (rev p))"
  let ?t = "rev (takeWhile (\<lambda>c. c \<noteq> sep) (rev p))"
  have "set p = set ?h \<union> set ?t" by (metis split_parts set_append)
  moreover have "set ?h \<subseteq> set (fst (os_path_split p)) \<union> {sep}"
    using rstrip_sep_set [of ?h] by (auto simp: os_path_split_def Let_def)
  moreover have "snd (os_path_split p) = ?t" by (simp add: os_path_split_def Let_def)
  ultimately show ?thesis by auto
qed

lemma ht_set: "set name \<subseteq> set (fst (head_tail name)) \<union> set (snd (head_tail name)) \<union> {sep}"
proof (cases "snd (os_path_split name) = []")
  case True
  with ht_cases [of name] have h: "head_tail name = os_path_split (fst (os_path_split name))" by auto
  from True split_set [of name] have "set name \<subseteq> set (fst (os_path_split name)) \<union> {sep}" by simp
  with split_set [of "fst (os_path_split name)"] show ?thesis unfolding h by blast
next
  case False
  with ht_cases [of name] have "head_tail name = os_path_split name" by auto
  with split_set [of name] show ?thesis by simp
qed

lemma walk_error: "walk fs cur cs = Inl e \<Longrightarrow> e = FileNotFoundError \<or> e = NotADirectoryError"
  by (induction cs arbitrary: cur) (auto split: option.splits kind.splits)

lemma try_mkdir_parent_dir:
  assumes "wf_fs fs" "nul \<notin> set name" "comps name = cs @ [c]" "pardir \<notin> set (cs @ [c])"
    and "kind_at fs (foldl step (start fs name) cs) = Some Dir"
  shows "try_mkdir name True fs =
     (case kind_at fs (step (foldl step (start fs name) cs) c) of
        None \<Rightarrow> (Inr (), fs\<lparr>nodes := (step (foldl step (start fs name) cs) c, Dir) # nodes fs\<rparr>)
      | Some Dir \<Rightarrow> (Inr (), fs)
      | Some File \<Rightarrow> (Inl FileExistsError, fs))"
proof -
  let ?par = "foldl step (start fs name) cs"
  from assms(3) have ne: "name \<noteq> []" "comps name \<noteq> []" by auto
  from assms(3) have bl: "butlast (comps name) = cs" "last (comps name) = c" by simp_all
  have w: "walk fs (start fs name) cs = Inr ?par"
    using assms(1,4,5) by (intro wf_walk) simp_all
  have wc: "walk fs (start fs name) (comps name) = Inr (step ?par c)"
    using w assms(5) by (simp add: assms(3) walk_append)
  show ?thesis
  proof (cases "c = curdir")
    case True
    then have s: "step ?par c = ?par" by (simp add: step_def)
    have "os_mkdir name fs = Inl FileExistsError"
      using assms(2) ne w assms(5) True by (simp add: os_mkdir_def bl)
    moreover have "os_path_isdir fs name"
      using assms(2) ne wc assms(5) by (simp add: os_path_isdir_def os_stat_def s)
    ultimately show ?thesis using assms(5) by (simp add: try_mkdir_def is_OSError_def s)
  next
    case False
    with assms(4) have s: "step ?par c = ?par @ [c]" by (auto simp: step_def)
    show ?thesis
    proof (cases "kind_at fs (?par @ [c])")
      case None
      from assms(4) have "c \<noteq> pardir" by auto
      with None assms(2,5) ne w False show ?thesis
        by (simp add: try_mkdir_def os_mkdir_def bl s)
    next
      case (Some k)
      then have m: "os_mkdir name fs = Inl FileExistsError"
        using assms(2,5) ne w by (simp add: os_mkdir_def bl)
      have "os_path_isdir fs name \<longleftrightarrow> k = Dir"
        using assms(2) ne wc Some by (cases k) (simp_all add: os_path_isdir_def os_stat_def s)
      with m Some show ?thesis by (cases k) (simp_all add: try_mkdir_def is_OSError_def s)
    qed
  qed
qed

lemma try_mkdir_parent_not_dir:
  assumes "comps name = cs @ [c]"
    and "kind_at fs (foldl step (start fs name) cs) \<noteq> Some Dir"
  shows "\<exists>e. try_mkdir name True fs = (Inl e, fs) \<and> e \<noteq> FileExistsError"
proof -
  let ?par = "foldl step (start fs name) cs"
  from assms(1) have ne: "name \<noteq> []" "comps name \<noteq> []" by auto
  from assms(1) have bl: "butlast (comps name) = cs" "last (comps name) = c" by simp_all
  have nd: "\<not> os_path_isdir fs name"
  proof
    assume "os_path_isdir fs name"
    then obtain q where "walk fs (start fs name) (cs @ [c]) = Inr q"
      by (auto simp: os_path_isdir_def os_stat_def assms(1) split: if_splits sum.splits)
    then obtain p where p: "walk fs (start fs name) cs = Inr p" and "walk fs p [c] = Inr q"
      by (auto simp: walk_append split: sum.splits)
    then have "kind_at fs p = Some Dir" by (auto split: option.splits kind.splits)
    with walk_result [OF p] assms(2) show False by simp
  qed
  have "\<exists>e. os_mkdir name fs = Inl e \<and> e \<noteq> FileExistsError"
  proof (cases "nul \<in> set name")
    case True
    then show ?thesis by (simp add: os_mkdir_def)
  next
    case False
    show ?thesis
    proof (cases "walk fs (start fs name) cs")
      case (Inl e)
      with walk_error [OF Inl] False ne show ?thesis by (auto simp: os_mkdir_def bl)
    next
      case (Inr p)
      from walk_result [OF Inr] assms(2) have "kind_at fs p \<noteq> Some Dir" by simp
      with Inr False ne show ?thesis
        by (auto simp: os_mkdir_def bl split: option.splits kind.splits)
    qed
  qed
  with nd show ?thesis by (auto simp: try_mkdir_def)
qed

subsection \<open>What os.makedirs does on a tree, without parent references\<close>

lemma new_dirs_snoc:
  "new_dirs fs (t @ [c]) = new_dirs fs t @ (if kind_at fs (t @ [c]) = None then [(t @ [c], Dir)] else [])"
  by (simp add: new_dirs_def)

lemma in_new_dirs: "(q, k) \<in> set (new_dirs fs t) \<longleftrightarrow> k = Dir \<and> prefix q t \<and> kind_at fs q = None"
  by (auto simp: new_dirs_def in_set_prefixes)

lemma wf_prefixes_dir:
  assumes "wf_fs fs" "kind_at fs t \<noteq> None" "prefix q t" "q \<noteq> t"
  shows "kind_at fs q = Some Dir"
proof -
  from assms(3,4) obtain r where "t = q @ r" "r \<noteq> []" by (auto simp: prefix_def)
  with assms(1,2) show ?thesis using wf_prefix by blast
qed

lemma wf_dir_prefixes:
  assumes "wf_fs fs" "kind_at fs t = Some Dir"
  shows "list_all (\<lambda>q. kind_at fs q \<noteq> Some File) (prefixes t)" and "new_dirs fs t = []"
proof -
  have "\<And>q. prefix q t \<Longrightarrow> kind_at fs q = Some Dir"
    using wf_prefixes_dir [OF assms(1)] assms(2) by (metis option.distinct(1))
  then show "list_all (\<lambda>q. kind_at fs q \<noteq> Some File) (prefixes t)" and "new_dirs fs t = []"
    by (auto simp: list_all_iff in_set_prefixes new_dirs_def filter_empty_conv)
qed

lemma kind_at_set:
  "wf_fs fs \<Longrightarrow> q \<noteq> [] \<Longrightarrow> kind_at fs q = Some k \<longleftrightarrow> (q, k) \<in> set (nodes fs)"
  by (simp add: wf_fs_def kind_at_def)

lemma ht_target:
  assumes "snd (head_tail name) \<noteq> []"
  shows "target fs name = step (foldl step (start fs name) (comps (fst (head_tail name)))) (snd (head_tail name))"
  by (simp add: target_def ht_comps_tail [OF assms])

lemma ht_target_head:
  "fst (head_tail name) \<noteq> [] \<Longrightarrow>
     target fs (fst (head_tail name)) = foldl step (start fs name) (comps (fst (head_tail name)))"
  by (simp add: target_def ht_head_start)

lemma ht_no_pardir:
  assumes "no_pardir name" "snd (head_tail name) \<noteq> []"
  shows "no_pardir (fst (head_tail name))" and "snd (head_tail name) \<noteq> pardir"
    and "pardir \<notin> set (comps (fst (head_tail name)) @ [snd (head_tail name)])"
  using assms(1) ht_comps_tail [OF assms(2)] by (auto simp: no_pardir_def)

lemma seps_isdir:
  assumes "wf_fs fs" "comps p = []" "p \<noteq> []"
  shows "os_path_isdir fs p"
proof -
  from comps_empty_seps [OF assms(2)] have "nul \<notin> set p" by (auto simp: nul_def sep_def)
  with assms wf_start [OF assms(1), of p] show ?thesis
    by (simp add: os_path_isdir_def os_stat_def)
qed

lemma feasible_head:
  assumes "feasible fs name" "fst (head_tail name) \<noteq> []" "snd (head_tail name) \<noteq> []"
    "snd (head_tail name) \<noteq> pardir"
  shows "feasible fs (fst (head_tail name))"
proof -
  let ?head = "fst (head_tail name)" and ?tail = "snd (head_tail name)"
  have "prefix (target fs ?head) (target fs name)"
    using assms(4) by (simp add: ht_target [OF assms(3)] ht_target_head [OF assms(2)] step_def)
  then have "set (prefixes (target fs ?head)) \<subseteq> set (prefixes (target fs name))"
    by (auto simp: in_set_prefixes)
  with assms(1,2) ht_head_set [of name] show ?thesis
    by (auto simp: feasible_def list_all_iff)
qed

lemma makedirs_base_case:
  assumes wf: "wf_fs fs" and np: "no_pardir name"
    and norec: "fst (head_tail name) = [] \<or> snd (head_tail name) = [] \<or> os_path_exists fs (fst (head_tail name))"
    and run: "try_mkdir name True fs = (r, fs')"
  shows "(feasible fs name \<longrightarrow> r = Inr () \<and> set (nodes fs') = set (nodes fs) \<union> set (new_dirs fs (target fs name)))
       \<and> (\<not> feasible fs name \<longrightarrow>
            (\<exists>e. r = Inl e \<and> (e = FileExistsError \<longrightarrow> last name \<noteq> sep \<longrightarrow> os_path_exists fs name)))"
proof (cases "snd (head_tail name) = []")
  case True
  then have c: "comps name = []" by (rule ht_tail_empty)
  then have t: "target fs name = start fs name" by (simp add: target_def)
  show ?thesis
  proof (cases "name = [] \<or> nul \<in> set name")
    case True
    then have "\<not> feasible fs name" by (auto simp: feasible_def)
    moreover from True run have "r = Inl FileNotFoundError \<or> r = Inl ValueError"
      by (auto simp: try_mkdir_def os_mkdir_def is_OSError_def os_path_isdir_def os_stat_def
          split: if_splits)
    ultimately show ?thesis by auto
  next
    case False
    then have m: "os_mkdir name fs = Inl FileExistsError" using c by (simp add: os_mkdir_def)
    from False c wf have "os_path_isdir fs name" by (simp add: seps_isdir)
    with m run have r: "r = Inr ()" "fs' = fs" by (simp_all add: try_mkdir_def is_OSError_def)
    from wf_dir_prefixes [OF wf wf_start [OF wf, of name]] False
    have "feasible fs name" "new_dirs fs (target fs name) = []"
      by (simp_all add: feasible_def t)
    with r show ?thesis by simp
  qed
next
  case False
  let ?head = "fst (head_tail name)" and ?tail = "snd (head_tail name)"
  let ?par = "foldl step (start fs name) (comps ?head)"
  have cs: "comps name = comps ?head @ [?tail]" using False by (rule ht_comps_tail)
  have ne: "name \<noteq> []" using cs by auto
  have t: "target fs name = step ?par ?tail" using False by (rule ht_target)
  have npc: "pardir \<notin> set (comps ?head @ [?tail])" and tp: "?tail \<noteq> pardir"
    using ht_no_pardir [OF np False] by simp_all
  have par_exists: "kind_at fs ?par \<noteq> None"
  proof (cases "?head = []")
    case True
    then show ?thesis using wf_start [OF wf, of name] by simp
  next
    case False
    with norec \<open>?tail \<noteq> []\<close> have "os_path_exists fs ?head" by simp
    then obtain q where "walk fs (start fs ?head) (comps ?head) = Inr q" "kind_at fs q \<noteq> None"
      by (auto simp: os_path_exists_def os_stat_def split: if_splits sum.splits option.splits)
    with walk_result [of fs "start fs ?head" "comps ?head" q] False show ?thesis
      by (simp add: ht_head_start)
  qed
  show ?thesis
  proof (cases "kind_at fs ?par = Some Dir")
    case pd: True
    show ?thesis
    proof (cases "nul \<in> set name")
      case True
      then have "\<not> feasible fs name" by (simp add: feasible_def)
      moreover from True run have "r = Inl ValueError"
        by (simp add: try_mkdir_def os_mkdir_def is_OSError_def)
      ultimately show ?thesis by simp
    next
      case nn: False
      note tm = try_mkdir_parent_dir [OF wf nn cs npc pd]
      have pre: "list_all (\<lambda>q. kind_at fs q \<noteq> Some File) (prefixes ?par)" "new_dirs fs ?par = []"
        using wf_dir_prefixes [OF wf pd] by simp_all
      show ?thesis
      proof (cases "kind_at fs (step ?par ?tail)")
        case None
        then have s: "step ?par ?tail = ?par @ [?tail]" using pd tp by (auto simp: step_def split: if_splits)
        from None tm run have r: "r = Inr ()" "fs' = fs\<lparr>nodes := (step ?par ?tail, Dir) # nodes fs\<rparr>"
          by simp_all
        from None pre ne nn have "feasible fs name" "new_dirs fs (target fs name) = [(step ?par ?tail, Dir)]"
          unfolding t by (simp_all add: feasible_def t s new_dirs_snoc)
        with r show ?thesis by (simp add: t)
      next
        case (Some k)
        show ?thesis
        proof (cases k)
          case Dir
          with Some tm run have r: "r = Inr ()" "fs' = fs" by simp_all
          from Some Dir have "kind_at fs (target fs name) = Some Dir" by (simp add: t)
          from wf_dir_prefixes [OF wf this] ne nn
          have "feasible fs name" "new_dirs fs (target fs name) = []" by (simp_all add: feasible_def)
          with r show ?thesis by simp
        next
          case File
          with Some tm run have r: "r = Inl FileExistsError" by simp
          from Some File have "\<not> feasible fs name"
            by (auto simp: feasible_def t list_all_iff in_set_prefixes)
          moreover have "last name \<noteq> sep \<longrightarrow> os_path_exists fs name"
          proof
            assume l: "last name \<noteq> sep"
            have "walk fs (start fs name) (comps ?head) = Inr ?par"
              using wf npc pd by (intro wf_walk) simp_all
            then have "walk fs (start fs name) (comps name) = Inr (step ?par ?tail)"
              using pd by (simp add: cs walk_append)
            with Some File l ne nn show "os_path_exists fs name"
              by (simp add: os_path_exists_def os_stat_def)
          qed
          ultimately show ?thesis using r by simp
        qed
      qed
    qed
  next
    case False
    from try_mkdir_parent_not_dir [OF cs False] run
    obtain e where r: "r = Inl e" "e \<noteq> FileExistsError" by auto
    from False par_exists have "kind_at fs ?par = Some File" by (cases "kind_at fs ?par") (auto intro: kind.exhaust)
    moreover have "prefix ?par (step ?par ?tail)" using tp by (simp add: step_def)
    ultimately have "\<not> feasible fs name"
      by (auto simp: feasible_def t list_all_iff in_set_prefixes)
    with r show ?thesis by simp
  qed
qed

lemma makedirs_char:
  assumes "b" "wf_fs fs" "no_pardir name" "os_makedirs name b fs = (r, fs')"
  shows "(feasible fs name \<longrightarrow> r = Inr () \<and> set (nodes fs') = set (nodes fs) \<union> set (new_dirs fs (target fs name)))
       \<and> (\<not> feasible fs name \<longrightarrow>
            (\<exists>e. r = Inl e \<and> (e = FileExistsError \<longrightarrow> last name \<noteq> sep \<longrightarrow> os_path_exists fs name)))"
  using assms
proof (induction name b fs arbitrary: r fs' rule: os_makedirs.induct)
  case (1 name exist_ok fs)
  let ?head = "fst (head_tail name)" and ?tail = "snd (head_tail name)"
  let ?par = "foldl step (start fs name) (comps ?head)"
  from "1.prems" have ok: "exist_ok = True" and wf: "wf_fs fs" and np: "no_pardir name" by simp_all
  show ?case
  proof (cases "?head \<noteq> [] \<and> ?tail \<noteq> [] \<and> \<not> os_path_exists fs ?head")
    case False
    with "1.prems"(4) have "try_mkdir name True fs = (r, fs')"
      unfolding ok by (subst (asm) os_makedirs.simps) (auto simp: Let_def)
    with False show ?thesis by (intro makedirs_base_case [OF wf np]) auto
  next
    case True
    then have hne: "?head \<noteq> []" and tne: "?tail \<noteq> []" and nex: "\<not> os_path_exists fs ?head"
      by simp_all
    obtain r1 fs1 where rec: "os_makedirs ?head exist_ok fs = (r1, fs1)" by fastforce
    have nph: "no_pardir ?head" and tp: "?tail \<noteq> pardir"
      and npc: "pardir \<notin> set (comps ?head @ [?tail])"
      using ht_no_pardir [OF np tne] by simp_all
    note IH = "1.IH" [OF refl refl True "1.prems"(1) wf nph rec]
    have cs: "comps name = comps ?head @ [?tail]" using tne by (rule ht_comps_tail)
    have ne: "name \<noteq> []" using cs by auto
    have t: "target fs name = step ?par ?tail" using tne by (rule ht_target)
    have th: "target fs ?head = ?par" using hne by (rule ht_target_head)
    have eq: "(r, fs') =
        (case r1 of
           Inl e \<Rightarrow> if e = FileExistsError
                    then (if ?tail = curdir then (Inr (), fs1) else try_mkdir name True fs1)
                    else (Inl e, fs1)
         | Inr u \<Rightarrow> if ?tail = curdir then (Inr (), fs1) else try_mkdir name True fs1)"
      using "1.prems"(4) True rec unfolding ok
      by (subst (asm) os_makedirs.simps) (simp add: Let_def)
    show ?thesis
    proof (cases "feasible fs ?head")
      case False
      with IH obtain e where e: "r1 = Inl e"
        "e = FileExistsError \<longrightarrow> last ?head \<noteq> sep \<longrightarrow> os_path_exists fs ?head" by auto
      have "e \<noteq> FileExistsError"
      proof
        assume "e = FileExistsError"
        with e nex have "last ?head = sep" by auto
        with ht_head_stripped [of name] hne have "comps ?head = []" by auto
        from seps_isdir [OF wf this hne] nex show False
          by (simp add: os_path_isdir_def os_path_exists_def)
      qed
      with eq e have "r = Inl e" by simp
      moreover have "\<not> feasible fs name" using False feasible_head [OF _ hne tne tp] by blast
      ultimately show ?thesis using \<open>e \<noteq> FileExistsError\<close> by simp
    next
      case fh: True
      with IH have r1: "r1 = Inr ()"
        and n1: "set (nodes fs1) = set (nodes fs) \<union> set (new_dirs fs ?par)" by (simp_all add: th)
      from fh have nh: "nul \<notin> set ?head"
        and ph: "list_all (\<lambda>q. kind_at fs q \<noteq> Some File) (prefixes ?par)"
        by (simp_all add: feasible_def th)
      from makedirs_extends_wf [OF rec] wf have ext: "extends fs fs1" and wf1: "wf_fs fs1" by simp_all
      have st1: "start fs1 name = start fs name" using ext by (rule start_extends)
      have "\<not> os_path_isdir fs ?head"
        using nex by (auto simp: os_path_isdir_def os_path_exists_def)
      with wf_isdir [OF wf nph hne nh] have "kind_at fs ?par \<noteq> Some Dir" by (auto simp: th)
      moreover from ph have "kind_at fs ?par \<noteq> Some File" by (auto simp: list_all_iff in_set_prefixes)
      ultimately have pn: "kind_at fs ?par = None"
        by (cases "kind_at fs ?par") (auto intro: kind.exhaust)
      then have pne: "?par \<noteq> []" by auto
      from pn have "(?par, Dir) \<in> set (new_dirs fs ?par)" by (simp add: in_new_dirs)
      with n1 have pd1: "kind_at fs1 ?par = Some Dir" by (simp add: kind_at_set [OF wf1 pne])
      from eq r1 have eq': "(r, fs') = (if ?tail = curdir then (Inr (), fs1) else try_mkdir name True fs1)"
        by simp
      show ?thesis
      proof (cases "?tail = curdir")
        case True
        with eq' have r: "r = Inr ()" "fs' = fs1" by simp_all
        have tt: "target fs name = ?par" by (simp add: t True step_def)
        from nh ht_set [of name] True have "nul \<notin> set name"
          by (auto simp: curdir_def nul_def sep_def)
        with ne ph have "feasible fs name" by (simp add: feasible_def tt)
        with r n1 show ?thesis by (simp add: tt)
      next
        case False
        with tp have s: "step ?par ?tail = ?par @ [?tail]" by (simp add: step_def)
        from eq' False have run: "try_mkdir name True fs1 = (r, fs')" by simp
        have cn: "kind_at fs (?par @ [?tail]) = None"
          using wf_parent [OF wf, of ?par ?tail] pn by (cases "kind_at fs (?par @ [?tail])") auto
        show ?thesis
        proof (cases "nul \<in> set name")
          case True
          then have "\<not> feasible fs name" by (simp add: feasible_def)
          moreover from True run have "r = Inl ValueError"
            by (simp add: try_mkdir_def os_mkdir_def is_OSError_def)
          ultimately show ?thesis by simp
        next
          case nn: False
          have cn1: "kind_at fs1 (?par @ [?tail]) = None"
          proof (cases "kind_at fs1 (?par @ [?tail])")
            case None
            then show ?thesis .
          next
            case (Some k)
            then have "(?par @ [?tail], k) \<in> set (nodes fs1)" by (simp add: kind_at_set [OF wf1])
            with n1 have "(?par @ [?tail], k) \<in> set (nodes fs)" by (auto simp: in_new_dirs)
            then have "kind_at fs (?par @ [?tail]) = Some k" by (simp add: kind_at_set [OF wf])
            with cn show ?thesis by simp
          qed
          from try_mkdir_parent_dir [OF wf1 nn cs npc] pd1 cn1 run
          have r: "r = Inr ()" "fs' = fs1\<lparr>nodes := (?par @ [?tail], Dir) # nodes fs1\<rparr>"
            by (simp_all add: st1 s)
          from ne nn ph cn have "feasible fs name" by (simp add: feasible_def t s)
          moreover have "set (nodes fs') = set (nodes fs) \<union> set (new_dirs fs (target fs name))"
            using r n1 cn by (simp add: t s new_dirs_snoc)
          ultimately show ?thesis using r by simp
        qed
      qed
    qed
  qed
qed

subsection \<open>What the loop does\<close>

lemma disk_print [simp]: "disk (print s w) = disk w"
  by (simp add: print_def)

lemma target_extends: "extends fs fs' \<Longrightarrow> target fs' p = target fs p"
  by (simp add: target_def start_extends)

lemma makedirs_success:
  assumes "wf_fs fs" "no_pardir name" "os_makedirs name True fs = (Inr (), fs')"
  shows "feasible fs name" and "set (nodes fs') = set (nodes fs) \<union> set (new_dirs fs (target fs name))"
    and "wf_fs fs'" and "extends fs fs'"
proof -
  from makedirs_char [OF TrueI assms] show "feasible fs name"
    and "set (nodes fs') = set (nodes fs) \<union> set (new_dirs fs (target fs name))"
    by auto
  from makedirs_extends_wf [OF assms(3)] assms(1) show "wf_fs fs'" and "extends fs fs'" by simp_all
qed

lemma makedirs_success_isdir:
  assumes "wf_fs fs" "no_pardir name" "os_makedirs name True fs = (Inr (), fs')"
  shows "os_path_isdir fs' name"
proof -
  note s = makedirs_success [OF assms]
  let ?t = "target fs name"
  from s(1) have f: "name \<noteq> []" "nul \<notin> set name" "kind_at fs ?t \<noteq> Some File"
    by (auto simp: feasible_def list_all_iff in_set_prefixes)
  have "kind_at fs' ?t = Some Dir"
  proof (cases "kind_at fs ?t")
    case None
    then have "?t \<noteq> []" by auto
    moreover from None have "(?t, Dir) \<in> set (new_dirs fs ?t)" by (simp add: in_new_dirs)
    ultimately show ?thesis using s(2) by (simp add: kind_at_set [OF s(3)])
  next
    case (Some k)
    with f(3) have "kind_at fs ?t = Some Dir" by (cases k) simp_all
    with s(4) show ?thesis by (simp add: extends_def)
  qed
  then have "kind_at fs' (target fs' name) = Some Dir" by (simp add: target_extends [OF s(4)])
  from wf_isdir [OF s(3) assms(2) f(1,2) this] show ?thesis .
qed

lemma makedirs_feasible:
  assumes "wf_fs fs" "no_pardir name" "feasible fs name"
  shows "\<exists>fs'. os_makedirs name True fs = (Inr (), fs')"
proof -
  obtain r fs' where "os_makedirs name True fs = (r, fs')" by fastforce
  with makedirs_char [OF TrueI assms(1,2) this] assms(3) show ?thesis by auto
qed

lemma files_same:
  assumes "wf_fs fs" "wf_fs fs'" "set (nodes fs') = set (nodes fs) \<union> set (new_dirs fs t)"
  shows "kind_at fs' q = Some File \<longleftrightarrow> kind_at fs q = Some File"
proof (cases "q = []")
  case True
  then show ?thesis by simp
next
  case False
  then show ?thesis
    using assms(3) by (auto simp: kind_at_set [OF assms(1)] kind_at_set [OF assms(2)] in_new_dirs)
qed

lemma feasible_same:
  assumes "wf_fs fs" "wf_fs fs'" "set (nodes fs') = set (nodes fs) \<union> set (new_dirs fs t)"
    "extends fs fs'"
  shows "feasible fs' p \<longleftrightarrow> feasible fs p"
  by (simp add: feasible_def target_extends [OF assms(4)] files_same [OF assms(1-3)])

lemma new_dirs_after:
  assumes "wf_fs fs" "wf_fs fs'" "set (nodes fs') = set (nodes fs) \<union> set (new_dirs fs t)"
  shows "set (new_dirs fs t) \<union> set (new_dirs fs' u) = set (new_dirs fs t) \<union> set (new_dirs fs u)"
proof -
  have n: "kind_at fs' q = None \<longleftrightarrow> kind_at fs q = None \<and> (q, Dir) \<notin> set (new_dirs fs t)" for q
  proof (cases "q = []")
    case True
    then show ?thesis by simp
  next
    case False
    have "kind_at fs' q = None \<longleftrightarrow> (\<forall>k. (q, k) \<notin> set (nodes fs'))"
      using kind_at_set [OF assms(2) False] by (metis not_Some_eq)
    moreover have "kind_at fs q = None \<longleftrightarrow> (\<forall>k. (q, k) \<notin> set (nodes fs))"
      using kind_at_set [OF assms(1) False] by (metis not_Some_eq)
    ultimately show ?thesis using assms(3) by (auto simp: in_new_dirs)
  qed
  show ?thesis
  proof (rule set_eqI)
    fix x :: "string list \<times> kind"
    obtain q k where x: "x = (q, k)" by (cases x)
    show "x \<in> set (new_dirs fs t) \<union> set (new_dirs fs' u) \<longleftrightarrow> x \<in> set (new_dirs fs t) \<union> set (new_dirs fs u)"
      unfolding x using n [of q] by (auto simp: in_new_dirs)
  qed
qed

lemma create_all_success:
  assumes "wf_fs (disk w)" "\<forall>d\<in>set dirs. no_pardir (os_path_join base d)"
    "create_all base dirs w = (Inr (), w')"
  shows "(\<forall>d\<in>set dirs. feasible (disk w) (os_path_join base d))
       \<and> set (nodes (disk w')) = set (nodes (disk w)) \<union> all_new_dirs (disk w) base dirs
       \<and> wf_fs (disk w') \<and> cwd (disk w') = cwd (disk w)
       \<and> (\<forall>d\<in>set dirs. os_path_isdir (disk w') (os_path_join base d))"
  using assms
proof (induction dirs arbitrary: w)
  case Nil
  then show ?case by (simp add: all_new_dirs_def)
next
  case (Cons d dirs)
  let ?p = "os_path_join base d"
  obtain r fs1 where m: "os_makedirs ?p True (disk w) = (r, fs1)" by fastforce
  with Cons.prems(3) have r: "r = Inr ()" by (cases r) (auto simp: Let_def)
  let ?w1 = "print (''Created: '' @ ?p) (w\<lparr>disk := fs1\<rparr>)"
  from m r Cons.prems(3) have rest: "create_all base dirs ?w1 = (Inr (), w')" by (simp add: Let_def)
  have d1: "disk ?w1 = fs1" by simp
  from Cons.prems(2) have np: "no_pardir ?p" and nps: "\<forall>d\<in>set dirs. no_pardir (os_path_join base d)"
    by simp_all
  note s = makedirs_success [OF Cons.prems(1) np m [unfolded r]]
  have wf1: "wf_fs (disk ?w1)" using s(3) by simp
  note IH = Cons.IH [OF wf1 nps rest, unfolded d1]
  have fs: "feasible fs1 q \<longleftrightarrow> feasible (disk w) q" for q
    using feasible_same [OF Cons.prems(1) s(3) s(2) s(4)] .
  have tg: "target fs1 q = target (disk w) q" for q using target_extends [OF s(4)] .
  have "set (new_dirs (disk w) (target (disk w) ?p)) \<union> all_new_dirs fs1 base dirs
      = set (new_dirs (disk w) (target (disk w) ?p)) \<union> all_new_dirs (disk w) base dirs"
    using new_dirs_after [OF Cons.prems(1) s(3) s(2)]
    unfolding all_new_dirs_def tg by blast
  with IH s(2) have n: "set (nodes (disk w')) = set (nodes (disk w)) \<union> all_new_dirs (disk w) base (d # dirs)"
    by (auto simp: all_new_dirs_def)
  have "extends fs1 (disk w')" using create_all_extends [OF rest] by (simp add: d1)
  with makedirs_success_isdir [OF Cons.prems(1) np m [unfolded r]]
  have "os_path_isdir (disk w') ?p" using isdir_extends by blast
  moreover have "cwd (disk w') = cwd (disk w)" using IH s(4) by (simp add: extends_def)
  ultimately show ?case using IH s(1) n fs by simp
qed

lemma create_all_feasible:
  assumes "wf_fs (disk w)" "\<forall>d\<in>set dirs. no_pardir (os_path_join base d)"
    "\<forall>d\<in>set dirs. feasible (disk w) (os_path_join base d)"
  shows "\<exists>w'. create_all base dirs w = (Inr (), w')"
  using assms
proof (induction dirs arbitrary: w)
  case Nil
  then show ?case by simp
next
  case (Cons d dirs)
  let ?p = "os_path_join base d"
  from Cons.prems have np: "no_pardir ?p" and f: "feasible (disk w) ?p" by simp_all
  from makedirs_feasible [OF Cons.prems(1) np f]
  obtain fs1 where m: "os_makedirs ?p True (disk w) = (Inr (), fs1)" by blast
  note s = makedirs_success [OF Cons.prems(1) np m]
  let ?w1 = "print (''Created: '' @ ?p) (w\<lparr>disk := fs1\<rparr>)"
  have d1: "disk ?w1 = fs1" by simp
  have "\<forall>d\<in>set dirs. feasible (disk ?w1) (os_path_join base d)"
    using Cons.prems(3) feasible_same [OF Cons.prems(1) s(3) s(2) s(4)] by simp
  moreover have "wf_fs (disk ?w1)" using s(3) by simp
  ultimately obtain w' where "create_all base dirs ?w1 = (Inr (), w')"
    using Cons.IH [of ?w1] Cons.prems(2) by auto
  with m show ?case by (simp add: Let_def)
qed

lemma script_success:
  "script base dirs w = (Inr (), w') \<longleftrightarrow>
     (\<exists>w1. create_all base dirs w = (Inr (), w1) \<and> w' = print (newline # summary_line) w1)"
  by (auto simp: script_def summary_line_def split: prod.splits sum.splits)






section \<open>The scenarios, evaluated\<close>

lemma scenario_wf: "wf_fs (disk fresh_world)"
  by code_simp

lemma scenario_no_pardir: "\<forall>d\<in>set scenario_dirs. no_pardir (os_path_join scenario_base d)"
  by code_simp

lemma scenario_run: "script scenario_base scenario_dirs fresh_world = (Inr (), scenario_result)"
  by code_simp

lemma scenario_stdout: "stdout fresh_world = []"
  by code_simp

lemma scenario_no_pardir_all:
  "list_all (\<lambda>d. no_pardir (os_path_join scenario_base d)) scenario_dirs"
  using scenario_no_pardir by (simp add: list_all_iff)


text \<open>
  The scenario of the specification ends as it says: both directories exist, and the output
  is the two confirmation lines, a blank line and the summary line.
\<close>

lemma scenario_as_specified:
  "os_path_isdir (disk scenario_result) ''/tmp/proj/lib/core/error''
   \<and> os_path_isdir (disk scenario_result) ''/tmp/proj/lib/features/user/domain/entities''
   \<and> stdout scenario_result =
       ''Created: /tmp/proj/lib/core/error'' @ [newline]
       @ ''Created: /tmp/proj/lib/features/user/domain/entities'' @ [newline]
       @ [newline]
       @ ''Directory structure created successfully!'' @ [newline]"
  by code_simp

text \<open>The paths of the script itself contain no parent reference.\<close>

lemma directories_no_pardir: "\<forall>d\<in>set directories. no_pardir (os_path_join base_dir d)"
  by code_simp

text \<open>
  A path with a \<^verbatim>\<open>..\<close> component can make \<^verbatim>\<open>os.makedirs\<close> return normally on a path that
  is not a directory afterwards. In \<open>conflict_world\<close>, with the root as working directory,
  \<^verbatim>\<open>b/new/../f\<close> does not exist before \<^verbatim>\<open>b/new\<close> does, so the recursive call runs, creates
  \<^verbatim>\<open>b/new\<close> and raises FileExistsError at the regular file \<^verbatim>\<open>b/f\<close>; the caller passes
  over that exception and returns at the test for a tail \<^verbatim>\<open>.\<close>.
\<close>

lemma pardir_quirk:
  "fst (os_makedirs ''b/new/../f/.'' True (disk conflict_world)) = Inr ()
   \<and> \<not> os_path_isdir (snd (os_makedirs ''b/new/../f/.'' True (disk conflict_world))) ''b/new/../f/.''"
  by code_simp

text \<open>
  For the same reason the order of the entries can decide whether a run succeeds, when the
  base directory has a \<^verbatim>\<open>..\<close> component: with \<^verbatim>\<open>/b/new\<close> absent the entry \<^verbatim>\<open>f/.\<close> passes as
  above, with \<^verbatim>\<open>/b/new\<close> present it raises NotADirectoryError.
\<close>

lemma pardir_order_quirk:
  "fst (script ''/b/new/..'' [''f/.'', ''new''] conflict_world) = Inr ()
   \<and> fst (script ''/b/new/..'' [''new'', ''f/.''] conflict_world) = Inl NotADirectoryError"
  by code_simp

section \<open>The specified properties\<close>




text \<open>
  C2. On a successful run that starts with nothing printed, the console output is exactly
  the line \<^verbatim>\<open>Created: <fullPath>\<close> of each entry, in list order, then a blank line, then the
  line \<^verbatim>\<open>Directory structure created successfully!\<close>.
\<close>

theorem success_output_exact:
  assumes "script base dirs w = (Inr (), w')" and "stdout w = []"
  shows "stdout w' = unlines (map (created_line base) dirs @ [[], summary_line])"
  using script_stdout [OF assms(1)] assms(2) by (simp add: expected_output_def)

theorem success_output_exact_witness:
  "script scenario_base scenario_dirs fresh_world = (Inr (), scenario_result)
   \<and> stdout fresh_world = []
   \<and> stdout scenario_result
       = unlines (map (created_line scenario_base) scenario_dirs @ [[], summary_line])"
  using success_output_exact [OF scenario_run scenario_stdout] scenario_run scenario_stdout
  by blast

text \<open>
  C3, as stated: a successful run prints \<open>length dirs + 1\<close> lines. It does not: the last
  \<^verbatim>\<open>print\<close> writes a blank line before the summary line, so the scenario of the
  specification, with two entries, prints four lines.
\<close>

theorem line_count_counterexample:
  "fst (script scenario_base scenario_dirs fresh_world) = Inr ()
   \<and> length (lines_of (stdout (snd (script scenario_base scenario_dirs fresh_world))))
       \<noteq> length scenario_dirs + 1"
  by code_simp

text \<open>
  C3, amended. When no full path contains a newline, a successful run that starts with
  nothing printed prints \<open>length dirs + 2\<close> lines: one for each directory, a blank line and
  the summary line. Of these, \<open>length dirs + 1\<close> are not blank.
\<close>

theorem success_line_count:
  assumes "script base dirs w = (Inr (), w')" and "stdout w = []"
    and "\<forall>d\<in>set dirs. newline \<notin> set (os_path_join base d)"
  shows "length (lines_of (stdout w')) = length dirs + 2
       \<and> length (filter (\<lambda>l. l \<noteq> []) (lines_of (stdout w'))) = length dirs + 1"
proof -
  let ?ls = "map (created_line base) dirs @ [[], summary_line]"
  have out: "stdout w' = unlines ?ls"
    using script_stdout [OF assms(1)] assms(2) by (simp add: expected_output_def)
  have "\<forall>l\<in>set ?ls. newline \<notin> set l"
    using assms(3) by (auto simp: created_line_def summary_line_def newline_def)
  then have ls: "lines_of (stdout w') = ?ls" unfolding out by (rule lines_of_unlines)
  have "filter (\<lambda>l. l \<noteq> []) (map (created_line base) dirs) = map (created_line base) dirs"
    by (simp add: created_line_def filter_id_conv)
  then show ?thesis unfolding ls by (simp add: summary_line_def)
qed

lemma scenario_no_newline:
  "\<forall>d\<in>set scenario_dirs. newline \<notin> set (os_path_join scenario_base d)"
  by code_simp

theorem success_line_count_witness:
  "script scenario_base scenario_dirs fresh_world = (Inr (), scenario_result)
   \<and> stdout fresh_world = []
   \<and> list_all (\<lambda>d. newline \<notin> set (os_path_join scenario_base d)) scenario_dirs
   \<and> length (lines_of (stdout scenario_result)) = length scenario_dirs + 2
   \<and> length (filter (\<lambda>l. l \<noteq> []) (lines_of (stdout scenario_result))) = length scenario_dirs + 1"
proof -
  have "list_all (\<lambda>d. newline \<notin> set (os_path_join scenario_base d)) scenario_dirs"
    using scenario_no_newline by (simp add: list_all_iff)
  with success_line_count [OF scenario_run scenario_stdout scenario_no_newline]
    scenario_run scenario_stdout
  show ?thesis by blast
qed





text \<open>
  C5. If the full path of an entry is a regular file before the run, the run fails. When
  the entries before it are processed without error, it fails at that entry, with
  FileExistsError, an OSError, and the world it leaves is the one the earlier entries left:
  their directories and their lines are there, and nothing of the later entries is.
\<close>

theorem regular_file_conflict:
  assumes "os_stat (disk w) (os_path_join base e) = Inr File"
  shows "fst (script base (pre @ e # post) w) \<noteq> Inr ()
       \<and> (create_all base pre w = (Inr (), w1) \<longrightarrow>
            script base (pre @ e # post) w = (Inl FileExistsError, w1)
            \<and> is_OSError FileExistsError
            \<and> stdout w1 = stdout w @ unlines (map (created_line base) pre))"
proof -
  have at_entry: "script base (pre @ e # post) w = (Inl FileExistsError, v)"
    if pre: "create_all base pre w = (Inr (), v)" for v
  proof -
    from create_all_extends [OF pre] assms
    have "os_stat (disk v) (os_path_join base e) = Inr File" by (rule stat_extends)
    then have "os_makedirs (os_path_join base e) True (disk v) = (Inl FileExistsError, disk v)"
      by (simp add: stat_makedirs)
    then have "create_all base (e # post) v = (Inl FileExistsError, v)" by (simp add: Let_def)
    with pre have "create_all base (pre @ e # post) w = (Inl FileExistsError, v)"
      by (simp add: create_all_append)
    then show ?thesis by (simp add: script_def)
  qed
  have "fst (script base (pre @ e # post) w) \<noteq> Inr ()"
  proof (cases "create_all base pre w")
    case (Pair r v)
    show ?thesis
    proof (cases r)
      case (Inl err)
      with Pair have "create_all base (pre @ e # post) w = (Inl err, v)"
        by (simp add: create_all_append)
      then show ?thesis by (simp add: script_def)
    next
      case (Inr u)
      with Pair at_entry [of v] show ?thesis by simp
    qed
  qed
  moreover have "stdout w1 = stdout w @ unlines (map (created_line base) pre)"
    if "create_all base pre w = (Inr (), w1)"
    using create_all_stdout [OF that] .
  ultimately show ?thesis using at_entry [of w1] by (simp add: is_OSError_def)
qed

lemma conflict_file: "os_stat (disk conflict_world) (os_path_join ''/b'' ''f'') = Inr File"
  by code_simp

lemma conflict_prefix_run: "create_all ''/b'' [''g''] conflict_world = (Inr (), conflict_after_g)"
  by code_simp

theorem regular_file_conflict_witness:
  "os_stat (disk conflict_world) (os_path_join ''/b'' ''f'') = Inr File
   \<and> fst (script ''/b'' ([''g''] @ ''f'' # [''h'']) conflict_world) \<noteq> Inr ()
   \<and> create_all ''/b'' [''g''] conflict_world = (Inr (), conflict_after_g)
   \<and> script ''/b'' ([''g''] @ ''f'' # [''h'']) conflict_world = (Inl FileExistsError, conflict_after_g)
   \<and> is_OSError FileExistsError
   \<and> stdout conflict_after_g = stdout conflict_world @ unlines (map (created_line ''/b'') [''g''])"
  using regular_file_conflict [OF conflict_file, of "[''g'']" "[''h'']" conflict_after_g]
    conflict_file conflict_prefix_run
  by blast

text \<open>
  C6, as stated: a run on a permutation of the list leaves the same filesystem. It does not
  when a run fails. In \<open>conflict_world\<close> the entry \<^verbatim>\<open>f\<close> fails; with \<^verbatim>\<open>g\<close> before it the
  directory \<^verbatim>\<open>/b/g\<close> is created, with \<^verbatim>\<open>g\<close> after it it is not.
\<close>

theorem permuted_run_counterexample:
  "mset [''g'', ''f''] = mset [''f'', ''g'']
   \<and> set (nodes (disk (snd (script ''/b'' [''g'', ''f''] conflict_world))))
       \<noteq> set (nodes (disk (snd (script ''/b'' [''f'', ''g''] conflict_world))))"
proof -
  have "mset [''g'', ''f''] = mset [''f'', ''g'']" by simp
  moreover have "set (nodes (disk (snd (script ''/b'' [''g'', ''f''] conflict_world))))
       \<noteq> set (nodes (disk (snd (script ''/b'' [''f'', ''g''] conflict_world))))"
    by code_simp
  ultimately show ?thesis by blast
qed

text \<open>
  C6, amended. On a filesystem that is a tree of directories and regular files, without
  symbolic links, and with no \<^verbatim>\<open>..\<close> component in any full path: if the run on the
  original list succeeds, the run on any permutation of it succeeds too and leaves the same
  set of nodes, with the same working directory.
\<close>

theorem permuted_run_same_state:
  assumes "wf_fs (disk w)" and "\<forall>d\<in>set dirs. no_pardir (os_path_join base d)"
    and "mset dirs' = mset dirs"
    and "script base dirs w = (Inr (), w1)"
  shows "fst (script base dirs' w) = Inr ()
       \<and> set (nodes (disk (snd (script base dirs' w)))) = set (nodes (disk w1))
       \<and> cwd (disk (snd (script base dirs' w))) = cwd (disk w1)"
proof -
  from assms(3) have se: "set dirs' = set dirs" by (rule mset_eq_setD)
  from assms(4) obtain v1 where c: "create_all base dirs w = (Inr (), v1)"
    and w1: "w1 = print (newline # summary_line) v1" by (auto simp: script_success)
  note s1 = create_all_success [OF assms(1,2) c]
  from assms(2) se have np: "\<forall>d\<in>set dirs'. no_pardir (os_path_join base d)" by simp
  from s1 se have "\<forall>d\<in>set dirs'. feasible (disk w) (os_path_join base d)" by simp
  from create_all_feasible [OF assms(1) np this]
  obtain v2 where c2: "create_all base dirs' w = (Inr (), v2)" by blast
  note s2 = create_all_success [OF assms(1) np c2]
  have "all_new_dirs (disk w) base dirs' = all_new_dirs (disk w) base dirs"
    by (simp add: all_new_dirs_def se)
  with s1 s2 have "set (nodes (disk v2)) = set (nodes (disk v1))" "cwd (disk v2) = cwd (disk v1)"
    by simp_all
  moreover from c2 have "script base dirs' w = (Inr (), print (newline # summary_line) v2)"
    by (simp add: script_success)
  ultimately show ?thesis by (simp add: w1 print_def)
qed

lemma scenario_permuted: "mset (rev scenario_dirs) = mset scenario_dirs"
  by simp

theorem permuted_run_same_state_witness:
  "wf_fs (disk fresh_world)
   \<and> list_all (\<lambda>d. no_pardir (os_path_join scenario_base d)) scenario_dirs
   \<and> mset (rev scenario_dirs) = mset scenario_dirs
   \<and> script scenario_base scenario_dirs fresh_world = (Inr (), scenario_result)
   \<and> fst (script scenario_base (rev scenario_dirs) fresh_world) = Inr ()
   \<and> set (nodes (disk (snd (script scenario_base (rev scenario_dirs) fresh_world))))
       = set (nodes (disk scenario_result))
   \<and> cwd (disk (snd (script scenario_base (rev scenario_dirs) fresh_world)))
       = cwd (disk scenario_result)"
  using permuted_run_same_state [OF scenario_wf scenario_no_pardir scenario_permuted scenario_run]
    scenario_wf scenario_no_pardir_all scenario_permuted scenario_run
  by blast

text \<open>
  C7. The list of the script is the tree of the specification: \<^verbatim>\<open>core/error\<close> and
  \<^verbatim>\<open>core/usecases\<close>, then for each of user, post and product the nine folders of the domain,
  data and presentation layers, with \<^verbatim>\<open>cubit\<close> in place of \<^verbatim>\<open>bloc\<close> for post. It names 29
  directories, none twice.
\<close>

theorem directories_spec_tree:
  "directories = spec_tree \<and> distinct directories \<and> length directories = 29"
  by (simp add: directories_def spec_tree_def feature_dirs_def layer_dirs_def)

text \<open>
  C8, as stated: with an empty list the console output is just the summary line. It is
  not: the blank line comes first.
\<close>

theorem empty_list_output_counterexample:
  "fst (script scenario_base [] fresh_world) = Inr ()
   \<and> stdout (snd (script scenario_base [] fresh_world)) \<noteq> unlines [summary_line]"
  by code_simp

text \<open>
  C8, amended. With an empty list the run succeeds, leaves the filesystem as it is (so a
  base directory that is absent stays absent) and prints just the blank line and the
  summary line.
\<close>

theorem empty_list_run:
  "script base [] w = (Inr (), w\<lparr>stdout := stdout w @ unlines [[], summary_line]\<rparr>)
   \<and> disk (snd (script base [] w)) = disk w
   \<and> os_path_exists (disk (snd (script base [] w))) base = os_path_exists (disk w) base"
  by (simp add: script_def print_def unlines_def summary_line_def)

text \<open>
  C9. The output of a successful run does not depend on the filesystem it starts from:
  two successful runs of the same list from worlds with the same output so far end with the
  same output, the line of every entry included, whether or not its directory was there
  before.
\<close>

theorem output_independent_of_disk:
  assumes "script base dirs w1 = (Inr (), w1')" and "script base dirs w2 = (Inr (), w2')"
    and "stdout w1 = stdout w2"
  shows "stdout w1' = stdout w2' \<and> stdout w1' = stdout w1 @ expected_output base dirs"
  using script_stdout [OF assms(1)] script_stdout [OF assms(2)] assms(3) by simp

lemma populated_run:
  "script scenario_base scenario_dirs populated_world
     = (Inr (), snd (script scenario_base scenario_dirs populated_world))"
  by code_simp

lemma populated_stdout: "stdout fresh_world = stdout populated_world"
  by code_simp

lemma populated_differs:
  "\<not> os_path_exists (disk fresh_world) ''/tmp/proj/lib/core/error''
   \<and> os_path_isdir (disk populated_world) ''/tmp/proj/lib/core/error''"
  by code_simp

theorem output_independent_of_disk_witness:
  "script scenario_base scenario_dirs fresh_world = (Inr (), scenario_result)
   \<and> script scenario_base scenario_dirs populated_world
       = (Inr (), snd (script scenario_base scenario_dirs populated_world))
   \<and> stdout fresh_world = stdout populated_world
   \<and> \<not> os_path_exists (disk fresh_world) ''/tmp/proj/lib/core/error''
   \<and> os_path_isdir (disk populated_world) ''/tmp/proj/lib/core/error''
   \<and> stdout scenario_result = stdout (snd (script scenario_base scenario_dirs populated_world))
   \<and> stdout scenario_result = stdout fresh_world @ expected_output scenario_base scenario_dirs"
  using output_independent_of_disk [OF scenario_run populated_run populated_stdout]
    scenario_run populated_run populated_stdout populated_differs
  by blast






end
